theory Spec2Isabelle
  imports Main "HOL-Library.Word"
begin

section \<open>Data model of the nonce allocator (x/evm/keeper/keeper.go)\<close>

text \<open>
  The keeper's nonce bookkeeping lives in two fields of \<open>Keeper\<close>:
  \<open>pendingNonces map[string][]uint64\<close> and \<open>completedNonces *lru.LRU[string, bool]\<close>.
  Every operation on them runs under the single mutex \<open>nonceMx\<close>, so the operations are
  modelled sequentially, each one taking the keeper and returning the updated keeper.

  An address is go-ethereum's \<open>common.Address\<close>, an array of 20 bytes, here a 160-bit word;
  a nonce is a \<open>uint64\<close>, here a 64-bit word whose \<open>+\<close> wraps and whose order is unsigned.
\<close>

type_synonym address = "160 word"
type_synonym u64 = "64 word"

text \<open>\<open>var zeroAddress = common.HexToAddress("0x0000000000000000000000000000000000000000")\<close>\<close>

definition zeroAddress :: address where
  "zeroAddress = 0"

subsection \<open>The completed-nonce cache\<close>

text \<open>
  Modelled from the spec: the implementation of \<open>lru.LRU\<close> (package simplelru of
  golang-lru) is not among the sources; only its calls \<open>NewLRU(100000, nil)\<close>,
  \<open>Add(key, true)\<close> and \<open>Contains(key)\<close> are. Section 4.2 of the specification describes it as
  a capacity-bounded set with least-recently-used eviction: \<open>Add\<close> inserts the pair and, if
  the cache is at capacity, evicts the least recently accessed pair first; \<open>Contains\<close> is a
  membership test, and a hit counts as a recency touch.

  The cache is the list of its entries, most recently used first, together with its
  capacity. Adding a key that is already present refreshes it (the cache is a set).
\<close>

record lru =
  capacity :: nat
  recency :: "(string \<times> bool) list"

definition NewLRU :: "nat \<Rightarrow> lru" where
  "NewLRU n = \<lparr>capacity = n, recency = []\<rparr>"

definition lru_keys :: "lru \<Rightarrow> string list" where
  "lru_keys c = map fst (recency c)"

definition lru_touch :: "string \<Rightarrow> bool \<Rightarrow> (string \<times> bool) list \<Rightarrow> (string \<times> bool) list" where
  "lru_touch key v es = (key, v) # filter (\<lambda>e. fst e \<noteq> key) es"

text \<open>
  Modelled from the spec: \<open>Add\<close> of the absent cache implementation. It inserts the pair
  at the front; at capacity the least recently accessed pair, the last of the list, is
  evicted first.
\<close>

definition lru_Add :: "lru \<Rightarrow> string \<Rightarrow> bool \<Rightarrow> lru" where
  "lru_Add c key v =
     (if key \<in> set (lru_keys c) then c\<lparr>recency := lru_touch key v (recency c)\<rparr>
      else if capacity c \<le> length (recency c)
        then c\<lparr>recency := (key, v) # butlast (recency c)\<rparr>
      else c\<lparr>recency := (key, v) # recency c\<rparr>)"

text \<open>
  Modelled from the spec: \<open>Contains\<close> of the absent cache implementation. It returns
  whether the key is present, and the cache, in which a hit has moved the entry to the front.
\<close>

definition lru_Contains :: "lru \<Rightarrow> string \<Rightarrow> bool \<times> lru" where
  "lru_Contains c key =
     (case map_of (recency c) key of
        None \<Rightarrow> (False, c)
      | Some v \<Rightarrow> (True, c\<lparr>recency := lru_touch key v (recency c)\<rparr>))"

subsection \<open>The keeper\<close>

text \<open>
  Of the fields of \<open>Keeper\<close> only the two nonce tables matter here. The keys of
  \<open>pendingNonces\<close> are the strings \<open>addr.Hex()\<close>.
\<close>

record Keeper =
  pendingNonces :: "string \<rightharpoonup> u64 list"
  completedNonces :: lru

text \<open>
  \<open>NewKeeper\<close>: an empty pending table and an empty cache of capacity 100000. The panic
  of \<open>NewKeeper\<close> when the cache cannot be created has no counterpart: the model of the
  cache is created for every capacity.
\<close>

definition NewKeeper :: Keeper where
  "NewKeeper = \<lparr>pendingNonces = Map.empty, completedNonces = NewLRU 100000\<rparr>"

section \<open>Cache keys\<close>

text \<open>
  \<open>fmt.Sprintf("%s|%d", addr.Hex(), nonce)\<close>. The verb \<open>%d\<close> prints the \<open>uint64\<close> in decimal
  without leading zeros. \<open>addr.Hex()\<close> belongs to go-ethereum and is not among the sources;
  it is the parameter \<open>hex\<close> of every function below that calls it.
\<close>

definition digitChar :: "nat \<Rightarrow> char" where
  "digitChar d = ''0123456789'' ! d"

function formatUint :: "nat \<Rightarrow> string" where
  "formatUint n = (if n < 10 then [digitChar n] else formatUint (n div 10) @ [digitChar (n mod 10)])"
  by pat_completeness auto
termination
  by (relation "measure id") auto

declare formatUint.simps [simp del]

definition nonceCacheKey :: "(address \<Rightarrow> string) \<Rightarrow> address \<Rightarrow> u64 \<Rightarrow> string" where
  "nonceCacheKey hex addr nonce = hex addr @ ''|'' @ formatUint (unat nonce)"

section \<open>Operations\<close>

subsection \<open>sortedListContains\<close>

fun sortedListContains :: "u64 list \<Rightarrow> u64 \<Rightarrow> bool" where
  "sortedListContains [] item = False"
| "sortedListContains (v # rest) item =
     (if v = item then True
      else if v > item then False
      else sortedListContains rest item)"

subsection \<open>CalculateNextNonce\<close>

text \<open>
  The \<open>for\<close> loop has no bound, so it is a partial function: \<open>None\<close> is a loop that never
  returns. \<open>&&\<close> short-circuits, so the cache is asked only for a candidate that is not
  pending; the cache handed on is the one \<open>Contains\<close> left behind.
\<close>

partial_function (option) gapScan ::
  "u64 list \<Rightarrow> (u64 \<Rightarrow> string) \<Rightarrow> lru \<Rightarrow> u64 \<Rightarrow> (u64 \<times> lru) option" where
  "gapScan pending key c nextNonce =
     (if \<not> sortedListContains pending nextNonce
      then (case lru_Contains c (key nextNonce) of
              (hit, c') \<Rightarrow> if \<not> hit then Some (nextNonce, c') else gapScan pending key c' (nextNonce + 1))
      else gapScan pending key c (nextNonce + 1))"

declare gapScan.simps [code]

text \<open>
  \<open>getNonce\<close> stands for \<open>k.GetNonce(ctx, _)\<close>, the committed nonce read from the account
  store. A missing key of \<open>pendingNonces\<close> reads as the nil slice.
\<close>

definition pendingOf :: "(address \<Rightarrow> string) \<Rightarrow> Keeper \<Rightarrow> address \<Rightarrow> u64 list" where
  "pendingOf hex k addr = (case pendingNonces k (hex addr) of None \<Rightarrow> [] | Some xs \<Rightarrow> xs)"

definition CalculateNextNonce ::
  "(address \<Rightarrow> string) \<Rightarrow> (address \<Rightarrow> u64) \<Rightarrow> Keeper \<Rightarrow> address \<Rightarrow> bool \<Rightarrow> (u64 \<times> Keeper) option" where
  "CalculateNextNonce hex getNonce k addr includePending =
     (let latest = getNonce addr; nextNonce = latest in
      if \<not> includePending then Some (nextNonce, k)
      else (case gapScan (pendingOf hex k addr) (nonceCacheKey hex addr) (completedNonces k) nextNonce of
              None \<Rightarrow> None
            | Some (n, c') \<Rightarrow> Some (n, k\<lparr>completedNonces := c'\<rparr>)))"

subsection \<open>AddPendingNonce\<close>

text \<open>\<open>append\<close> to the slice of the address, then \<open>slices.Sort\<close> (ascending, unsigned).\<close>

definition AddPendingNonce :: "(address \<Rightarrow> string) \<Rightarrow> Keeper \<Rightarrow> address \<Rightarrow> u64 \<Rightarrow> Keeper" where
  "AddPendingNonce hex k addr nonce =
     (let addrStr = hex addr in
      k\<lparr>pendingNonces := (pendingNonces k)(addrStr \<mapsto> sort (pendingOf hex k addr @ [nonce]))\<rparr>)"

subsection \<open>RemovePendingNonce\<close>

text \<open>
  The \<open>range\<close> loop over the slice \<open>whole\<close> of the address, at index \<open>i\<close> with the elements
  from \<open>i\<close> on still to visit. In the success branch \<open>copy\<close> moves the elements after \<open>i\<close> to
  the front and the slice is cut to their number, which leaves \<open>drop (i + 1) whole\<close>; an
  empty result deletes the key. In the failure branch \<open>append(s[:i], s[i+1:]...)\<close> is stored,
  and the key stays.
\<close>

fun removeLoop ::
  "bool \<Rightarrow> u64 \<Rightarrow> string \<Rightarrow> u64 list \<Rightarrow> nat \<Rightarrow> u64 list \<Rightarrow> (string \<rightharpoonup> u64 list) \<Rightarrow> (string \<rightharpoonup> u64 list)" where
  "removeLoop success nonce addrStr whole i [] m = m"
| "removeLoop success nonce addrStr whole i (n # rest) m =
     (if success \<and> n \<ge> nonce then
        (let s = drop (i + 1) whole in
         if length s = 0 then m(addrStr := None) else m(addrStr \<mapsto> s))
      else if \<not> success \<and> n = nonce then
        m(addrStr \<mapsto> take i whole @ drop (i + 1) whole)
      else removeLoop success nonce addrStr whole (i + 1) rest m)"

definition RemovePendingNonce ::
  "(address \<Rightarrow> string) \<Rightarrow> Keeper \<Rightarrow> address \<Rightarrow> u64 \<Rightarrow> bool \<Rightarrow> Keeper" where
  "RemovePendingNonce hex k addr nonce success =
     (if addr = zeroAddress then k
      else
        let addrStr = hex addr;
            k1 = (if success
                  then k\<lparr>completedNonces := lru_Add (completedNonces k) (nonceCacheKey hex addr nonce) True\<rparr>
                  else k)
        in case pendingNonces k1 addrStr of
             None \<Rightarrow> k1
           | Some whole \<Rightarrow>
               k1\<lparr>pendingNonces := removeLoop success nonce addrStr whole 0 whole (pendingNonces k1)\<rparr>)"

section \<open>Notions used to state the properties\<close>

text \<open>
  The test the loop of \<open>CalculateNextNonce\<close> makes on a candidate: found by
  \<open>sortedListContains\<close> in the pending slice, or reported by \<open>Contains\<close> of the cache.
\<close>

definition taken :: "u64 list \<Rightarrow> (u64 \<Rightarrow> string) \<Rightarrow> lru \<Rightarrow> u64 \<Rightarrow> bool" where
  "taken pending key c n = (sortedListContains pending n \<or> fst (lru_Contains c (key n)))"

text \<open>
  A nonce is occupied for an address if it is an element of the address's pending
  sequence or its key is in the completed cache.
\<close>

definition occupied :: "(address \<Rightarrow> string) \<Rightarrow> Keeper \<Rightarrow> address \<Rightarrow> u64 \<Rightarrow> bool" where
  "occupied hex k addr n =
     (n \<in> set (pendingOf hex k addr) \<or> fst (lru_Contains (completedNonces k) (nonceCacheKey hex addr n)))"

text \<open>Every pending sequence of the table is ascending.\<close>

definition pendingSorted :: "Keeper \<Rightarrow> bool" where
  "pendingSorted k = (\<forall>a xs. pendingNonces k a = Some xs \<longrightarrow> sorted xs)"

text \<open>
  A sample rendering of addresses for the concrete instances below: \<open>0x\<close> followed by the
  40 lowercase hexadecimal digits of the 20 bytes. It instantiates the parameter \<open>hex\<close>;
  no general statement depends on it.
\<close>

definition hexDigit :: "nat \<Rightarrow> char" where
  "hexDigit d = ''0123456789abcdef'' ! d"

fun hexNibbles :: "nat \<Rightarrow> nat \<Rightarrow> string" where
  "hexNibbles 0 v = []"
| "hexNibbles (Suc w) v = hexNibbles w (v div 16) @ [hexDigit (v mod 16)]"

definition lowerHex :: "address \<Rightarrow> string" where
  "lowerHex a = ''0x'' @ hexNibbles 40 (unat a)"

text \<open>
  A sample state: address 1 has the pending nonces 10, 11 and 13, and the pair
  (address 1, nonce 12) is in the completed cache.
\<close>

definition exampleKeeper :: Keeper where
  "exampleKeeper =
     \<lparr>pendingNonces = [lowerHex 1 \<mapsto> [10, 11, 13]],
      completedNonces = lru_Add (NewLRU 100000) (nonceCacheKey lowerHex 1 12) True\<rparr>"

section \<open>Auxiliary facts\<close>

subsection \<open>The sorted scan and the cache\<close>

lemma sortedListContains_mem: "sortedListContains xs x \<Longrightarrow> x \<in> set xs"
  by (induction xs) (auto split: if_splits)

lemma sortedListContains_sorted: "sorted xs \<Longrightarrow> sortedListContains xs x = (x \<in> set xs)"
  by (induction xs) auto

lemma lru_Contains_fst: "fst (lru_Contains c key) = (key \<in> set (lru_keys c))"
  by (force simp: lru_Contains_def lru_keys_def map_of_eq_None_iff split: option.splits dest: map_of_SomeD)

lemma lru_Contains_keys_set: "set (lru_keys (snd (lru_Contains c key))) = set (lru_keys c)"
  by (force simp: lru_Contains_def lru_keys_def lru_touch_def  split: option.splits dest: map_of_SomeD)

lemma taken_touch: "taken pending key (snd (lru_Contains c s)) n = taken pending key c n"
  by (simp add: taken_def lru_Contains_fst lru_Contains_keys_set)

lemma lru_Add_keys_subset: "set (lru_keys (lru_Add c key v)) \<subseteq> insert key (set (lru_keys c))"
  by (auto simp: lru_Add_def lru_keys_def lru_touch_def dest: in_set_butlastD)

lemma lru_Add_present: "fst (lru_Contains (lru_Add c key v) key)"
  by (simp add: lru_Contains_fst lru_Add_def lru_keys_def lru_touch_def)

subsection \<open>The gap scan\<close>

lemma gapScan_least:
  "\<not> taken pending key c (n + of_nat j) \<Longrightarrow> \<forall>i<j. taken pending key c (n + of_nat i) \<Longrightarrow>
   \<exists>c'. gapScan pending key c n = Some (n + of_nat j, c') \<and> set (lru_keys c') = set (lru_keys c)"
proof (induction j arbitrary: n c)
  case 0
  then have np: "\<not> sortedListContains pending n" and miss: "\<not> fst (lru_Contains c (key n))"
    by (simp_all add: taken_def)
  have "gapScan pending key c n = Some (n, snd (lru_Contains c (key n)))"
    using np miss by (subst gapScan.simps) (simp add: case_prod_beta)
  then show ?case by (simp add: lru_Contains_keys_set)
next
  case (Suc j)
  have t0: "taken pending key c n" using Suc.prems(2) [rule_format, of 0] by simp
  have shift: "n + 1 + of_nat i = n + of_nat (Suc i)" for i by simp
  show ?case
  proof (cases "sortedListContains pending n")
    case True
    have step: "gapScan pending key c n = gapScan pending key c (n + 1)"
      using True by (subst gapScan.simps) simp
    have a: "\<not> taken pending key c (n + 1 + of_nat j)" using Suc.prems(1) unfolding shift .
    have b: "\<forall>i<j. taken pending key c (n + 1 + of_nat i)"
      using Suc.prems(2) unfolding shift by blast
    from Suc.IH [OF a b] step show ?thesis unfolding shift by simp
  next
    case False
    with t0 have hit: "fst (lru_Contains c (key n))" by (simp add: taken_def)
    define c1 where "c1 = snd (lru_Contains c (key n))"
    have step: "gapScan pending key c n = gapScan pending key c1 (n + 1)"
      using False hit by (subst gapScan.simps) (simp add: case_prod_beta c1_def)
    have a: "\<not> taken pending key c1 (n + 1 + of_nat j)"
      using Suc.prems(1) unfolding shift c1_def taken_touch .
    have b: "\<forall>i<j. taken pending key c1 (n + 1 + of_nat i)"
      using Suc.prems(2) unfolding shift c1_def taken_touch by blast
    from Suc.IH [OF a b] step show ?thesis
      unfolding shift by (simp add: c1_def lru_Contains_keys_set)
  qed
qed

lemma gapScan_sound:
  assumes "gapScan pending0 key0 c0 n0 = Some y0"
  shows "\<exists>j. fst y0 = n0 + of_nat j \<and> \<not> taken pending0 key0 c0 (fst y0) \<and>
       (\<forall>i<j. taken pending0 key0 c0 (n0 + of_nat i)) \<and> set (lru_keys (snd y0)) = set (lru_keys c0)"
proof (rule gapScan.raw_induct [where P = "\<lambda>pending key c n y. \<exists>j. fst y = n + of_nat j \<and> \<not> taken pending key c (fst y) \<and>
       (\<forall>i<j. taken pending key c (n + of_nat i)) \<and> set (lru_keys (snd y)) = set (lru_keys c)", OF _ assms], goal_cases)
  case (1 g pending key c n y)
  have shift: "n + of_nat (Suc i) = n + 1 + of_nat i" for i by simp
  have ext: "\<forall>i<Suc j. taken pending key c (n + of_nat i)"
    if "taken pending key c n" "\<forall>i<j. taken pending key c (n + 1 + of_nat i)" for j
  proof (intro allI impI)
    fix i assume "i < Suc j"
    then show "taken pending key c (n + of_nat i)"
      using that by (cases i) (simp_all only: shift, simp_all)
  qed
  show ?case
  proof (cases "sortedListContains pending n")
    case True
    with 1(2) have rec: "g pending key c (n + 1) = Some y" by simp
    from 1(1) [OF rec] obtain j where j: "fst y = n + 1 + of_nat j"
      "\<not> taken pending key c (fst y)" "\<forall>i<j. taken pending key c (n + 1 + of_nat i)"
      "set (lru_keys (snd y)) = set (lru_keys c)" by blast
    have "taken pending key c n" using True by (simp add: taken_def)
    from ext [OF this j(3)] j(1,2,4) show ?thesis
      unfolding shift [symmetric] by (intro exI [of _ "Suc j"]) blast
  next
    case False
    show ?thesis
    proof (cases "fst (lru_Contains c (key n))")
      case hit: True
      define c1 where "c1 = snd (lru_Contains c (key n))"
      from 1(2) False hit have rec: "g pending key c1 (n + 1) = Some y"
        by (simp add: case_prod_beta c1_def)
      from 1(1) [OF rec] obtain j where j: "fst y = n + 1 + of_nat j"
        "\<not> taken pending key c1 (fst y)" "\<forall>i<j. taken pending key c1 (n + 1 + of_nat i)"
        "set (lru_keys (snd y)) = set (lru_keys c1)" by blast
      have t: "taken pending key c n" using hit by (simp add: taken_def)
      have j2: "\<not> taken pending key c (fst y)" using j(2) by (simp add: c1_def taken_touch)
      have j3: "\<forall>i<j. taken pending key c (n + 1 + of_nat i)"
        using j(3) by (simp add: c1_def taken_touch)
      have j4: "set (lru_keys (snd y)) = set (lru_keys c)"
        using j(4) by (simp add: c1_def lru_Contains_keys_set)
      from ext [OF t j3] j(1) j2 j4 show ?thesis
        unfolding shift [symmetric] by (intro exI [of _ "Suc j"]) blast
    next
      case miss: False
      from 1(2) False miss have "y = (n, snd (lru_Contains c (key n)))"
        by (auto simp add: case_prod_beta)
      then show ?thesis using False miss
        by (intro exI [of _ 0]) (simp add: taken_def lru_Contains_keys_set)
    qed
  qed
qed

lemma least_offset:
  fixes n :: u64
  assumes "\<not> P x"
  shows "\<exists>j. \<not> P (n + of_nat j) \<and> (\<forall>i<j. P (n + of_nat i))"
proof -
  have "\<not> P (n + of_nat (unat (x - n)))" using assms by simp
  then have ex: "\<exists>j. \<not> P (n + of_nat j)" by blast
  define j where "j = (LEAST j. \<not> P (n + of_nat j))"
  have "\<not> P (n + of_nat j)" unfolding j_def using ex by (rule LeastI_ex)
  moreover have "\<forall>i<j. P (n + of_nat i)"
    unfolding j_def using not_less_Least by blast
  ultimately show ?thesis by blast
qed

lemma CalculateNextNonce_True:
  "CalculateNextNonce hex getNonce k addr True =
     (case gapScan (pendingOf hex k addr) (nonceCacheKey hex addr) (completedNonces k) (getNonce addr) of
        None \<Rightarrow> None | Some (n, c') \<Rightarrow> Some (n, k\<lparr>completedNonces := c'\<rparr>))"
  by (simp add: CalculateNextNonce_def)

subsection \<open>Decimal rendering and cache keys\<close>

lemma digitChar_inj: "a < 10 \<Longrightarrow> b < 10 \<Longrightarrow> digitChar a = digitChar b \<Longrightarrow> a = b"
  unfolding digitChar_def by (subst (asm) nth_eq_iff_index_eq) simp_all

lemma digitChar_in: "d < 10 \<Longrightarrow> digitChar d \<in> set ''0123456789''"
  unfolding digitChar_def by (rule nth_mem) simp

lemma digitChar_not_bar: "d < 10 \<Longrightarrow> digitChar d \<noteq> CHR ''|''"
  using digitChar_in [of d] by auto

lemma formatUint_nonempty: "formatUint n \<noteq> []"
  by (subst formatUint.simps) simp

lemma formatUint_no_bar: "CHR ''|'' \<notin> set (formatUint n)"
proof (induction n rule: formatUint.induct)
  case (1 n)
  show ?case
  proof (cases "n < 10")
    case True
    then show ?thesis using digitChar_not_bar [of n] by (subst formatUint.simps) auto
  next
    case False
    have "n mod 10 < 10" by simp
    from digitChar_not_bar [OF this] 1 [OF False] False show ?thesis
      by (subst formatUint.simps) auto
  qed
qed

lemma formatUint_inj: "formatUint n = formatUint m \<Longrightarrow> n = m"
proof (induction n arbitrary: m rule: formatUint.induct)
  case (1 n)
  have ml: "m mod 10 < 10" and nl: "n mod 10 < 10" by simp_all
  show ?case
  proof (cases "n < 10")
    case n: True
    show ?thesis
    proof (cases "m < 10")
      case True
      with n 1(2) show ?thesis
        by (simp add: formatUint.simps [of n] formatUint.simps [of m] digitChar_inj)
    next
      case False
      with n 1(2) formatUint_nonempty [of "m div 10"] show ?thesis
        by (simp add: formatUint.simps [of n] formatUint.simps [of m])
    qed
  next
    case n: False
    show ?thesis
    proof (cases "m < 10")
      case True
      with n 1(2) formatUint_nonempty [of "n div 10"] show ?thesis
        by (simp add: formatUint.simps [of n] formatUint.simps [of m])
    next
      case False
      with n 1(2) have e: "formatUint (n div 10) = formatUint (m div 10)"
        and d: "digitChar (n mod 10) = digitChar (m mod 10)"
        by (simp_all add: formatUint.simps [of n] formatUint.simps [of m])
      from 1(1) [OF n e] have dv: "n div 10 = m div 10" .
      from digitChar_inj [OF nl ml d] have md: "n mod 10 = m mod 10" .
      have "n = n div 10 * 10 + n mod 10" by simp
      also have "\<dots> = m div 10 * 10 + m mod 10" by (simp only: dv md)
      also have "\<dots> = m" by simp
      finally show ?thesis .
    qed
  qed
qed

lemma split_at_first:
  "x \<notin> set xs \<Longrightarrow> x \<notin> set xs' \<Longrightarrow> xs @ x # ys = xs' @ x # ys' \<Longrightarrow> xs = xs' \<and> ys = ys'"
proof (induction xs arbitrary: xs')
  case Nil
  then show ?case by (cases xs') auto
next
  case (Cons a xs)
  then show ?case by (cases xs') auto
qed

lemma nonceCacheKey_eq_iff:
  "(nonceCacheKey hex a1 n1 = nonceCacheKey hex a2 n2) = (hex a1 = hex a2 \<and> n1 = n2)"
proof
  assume eq: "nonceCacheKey hex a1 n1 = nonceCacheKey hex a2 n2"
  then have "rev (nonceCacheKey hex a1 n1) = rev (nonceCacheKey hex a2 n2)" by (rule arg_cong)
  then have "rev (formatUint (unat n1)) @ CHR ''|'' # rev (hex a1)
           = rev (formatUint (unat n2)) @ CHR ''|'' # rev (hex a2)"
    by (simp add: nonceCacheKey_def)
  then have "rev (formatUint (unat n1)) = rev (formatUint (unat n2)) \<and> rev (hex a1) = rev (hex a2)"
    by (intro split_at_first [of "CHR ''|''"]) (simp_all add: formatUint_no_bar)
  then have "hex a1 = hex a2" and "unat n1 = unat n2"
    by (auto dest: formatUint_inj)
  then show "hex a1 = hex a2 \<and> n1 = n2" by (simp add: word_unat_eq_iff)
next
  assume "hex a1 = hex a2 \<and> n1 = n2"
  then show "nonceCacheKey hex a1 n1 = nonceCacheKey hex a2 n2"
    by (simp add: nonceCacheKey_def)
qed

lemma nonceCacheKey_inj_nonce: "inj (nonceCacheKey hex addr)"
  by (rule injI) (simp add: nonceCacheKey_eq_iff)

lemma taken_card:
  "card {n. taken pending (nonceCacheKey hex addr) c n} \<le> length pending + length (recency c)"
proof -
  let ?key = "nonceCacheKey hex addr"
  let ?K = "set (lru_keys c)"
  have sub: "{n. taken pending ?key c n} \<subseteq> set pending \<union> ?key -` ?K"
    by (auto simp: taken_def lru_Contains_fst dest: sortedListContains_mem)
  have fin: "finite (?key -` ?K)"
    by (rule finite_vimageI [OF _ nonceCacheKey_inj_nonce]) simp
  have "card (?key -` ?K) = card (?key ` (?key -` ?K))"
    by (rule card_image [symmetric]) (rule inj_on_subset [OF nonceCacheKey_inj_nonce], simp)
  also have "\<dots> \<le> card ?K" by (rule card_mono) auto
  also have "\<dots> \<le> length (lru_keys c)" by (rule card_length)
  finally have ck: "card (?key -` ?K) \<le> length (recency c)" by (simp add: lru_keys_def)
  have "card {n. taken pending ?key c n} \<le> card (set pending \<union> ?key -` ?K)"
    by (rule card_mono [OF _ sub]) (simp add: fin)
  also have "\<dots> \<le> card (set pending) + card (?key -` ?K)" by (rule card_Un_le)
  also have "\<dots> \<le> length pending + length (recency c)"
    using card_length [of pending] ck by linarith
  finally show ?thesis .
qed

lemma free_exists:
  assumes "length pending + length (recency c) < 2 ^ 64"
  shows "\<exists>x. \<not> taken pending (nonceCacheKey hex addr) c x"
proof (rule ccontr)
  assume "\<not> ?thesis"
  then have "{n. taken pending (nonceCacheKey hex addr) c n} = (UNIV :: u64 set)" by auto
  then have "card {n. taken pending (nonceCacheKey hex addr) c n} = 2 ^ 64"
    by (simp add: card_word)
  with taken_card [of pending hex addr c] assms show False by simp
qed

lemma occupied_taken:
  "sorted (pendingOf hex k addr) \<Longrightarrow>
   taken (pendingOf hex k addr) (nonceCacheKey hex addr) (completedNonces k) n = occupied hex k addr n"
  by (simp add: taken_def occupied_def sortedListContains_sorted)

subsection \<open>The removal loop\<close>

lemma removeLoop_success:
  "removeLoop True nonce a (pre @ rest) (length pre) rest m =
     (if \<exists>x\<in>set rest. nonce \<le> x
      then (let s = tl (dropWhile (\<lambda>x. x < nonce) rest) in
            if s = [] then m(a := None) else m(a \<mapsto> s))
      else m)"
proof (induction rest arbitrary: pre)
  case Nil
  show ?case by simp
next
  case (Cons n rest)
  show ?case
  proof (cases "nonce \<le> n")
    case True
    then have "\<not> n < nonce" by (simp add: not_less)
    with True show ?thesis by (simp add: Let_def)
  next
    case False
    then have lt: "n < nonce" by (simp add: not_le)
    have ex: "(\<exists>x\<in>set (n # rest). nonce \<le> x) = (\<exists>x\<in>set rest. nonce \<le> x)"
      using False by simp
    have dw: "dropWhile (\<lambda>x. x < nonce) (n # rest) = dropWhile (\<lambda>x. x < nonce) rest"
      using lt by simp
    have "removeLoop True nonce a (pre @ n # rest) (length pre) (n # rest) m
        = removeLoop True nonce a ((pre @ [n]) @ rest) (length (pre @ [n])) rest m"
      using False by simp
    also note Cons.IH [of "pre @ [n]"]
    finally show ?thesis unfolding ex dw .
  qed
qed

lemma removeLoop_failure:
  "removeLoop False nonce a (pre @ rest) (length pre) rest m =
     (if nonce \<in> set rest then m(a \<mapsto> pre @ remove1 nonce rest) else m)"
proof (induction rest arbitrary: pre)
  case Nil
  show ?case by simp
next
  case (Cons n rest)
  show ?case
  proof (cases "n = nonce")
    case True
    then show ?thesis by simp
  next
    case False
    have "removeLoop False nonce a (pre @ n # rest) (length pre) (n # rest) m
        = removeLoop False nonce a ((pre @ [n]) @ rest) (length (pre @ [n])) rest m"
      using False by simp
    also note Cons.IH [of "pre @ [n]"]
    finally show ?thesis using False by auto
  qed
qed

lemma dropWhile_decomp:
  assumes "whole = pre @ x # post" "\<forall>p\<in>set pre. p < nonce" "nonce \<le> (x::u64)"
  shows "tl (dropWhile (\<lambda>x. x < nonce) whole) = post"
proof -
  have "dropWhile (\<lambda>x. x < nonce) (pre @ x # post) = x # post"
    using assms(2,3) by (simp add: dropWhile_append2 not_less [symmetric])
  then show ?thesis by (simp add: assms(1))
qed

lemma RemovePendingNonce_success_eq:
  assumes "addr \<noteq> zeroAddress" "pendingNonces k (hex addr) = Some whole"
  shows "RemovePendingNonce hex k addr nonce True =
     k\<lparr>completedNonces := lru_Add (completedNonces k) (nonceCacheKey hex addr nonce) True,
       pendingNonces :=
         (if \<exists>x\<in>set whole. nonce \<le> x
          then (let s = tl (dropWhile (\<lambda>x. x < nonce) whole) in
                if s = [] then (pendingNonces k)(hex addr := None) else (pendingNonces k)(hex addr \<mapsto> s))
          else pendingNonces k)\<rparr>"
  using assms removeLoop_success [of nonce "hex addr" "[]" whole "pendingNonces k"]
  by (simp add: RemovePendingNonce_def Let_def)

lemma RemovePendingNonce_failure_eq:
  assumes "addr \<noteq> zeroAddress" "pendingNonces k (hex addr) = Some whole"
  shows "RemovePendingNonce hex k addr nonce False =
     k\<lparr>pendingNonces := (pendingNonces k)(hex addr \<mapsto> remove1 nonce whole)\<rparr>"
proof -
  have "(pendingNonces k)(hex addr \<mapsto> whole) = pendingNonces k"
    using assms(2) by (simp add: fun_upd_idem)
  then show ?thesis
    using assms removeLoop_failure [of nonce "hex addr" "[]" whole "pendingNonces k"]
    by (simp add: RemovePendingNonce_def Let_def remove1_idem)
qed

lemma completedNonces_Remove:
  "completedNonces (RemovePendingNonce hex k addr nonce success) =
     (if addr \<noteq> zeroAddress \<and> success
      then lru_Add (completedNonces k) (nonceCacheKey hex addr nonce) True
      else completedNonces k)"
  by (simp add: RemovePendingNonce_def Let_def split: option.splits)

lemma RemovePendingNonce_no_entry:
  "pendingNonces k (hex addr) = None \<Longrightarrow>
   pendingNonces (RemovePendingNonce hex k addr nonce success) = pendingNonces k"
  by (simp add: RemovePendingNonce_def Let_def)

lemma sorted_prune: "sorted (whole :: u64 list) \<Longrightarrow> sorted (tl (dropWhile P whole))"
  by (intro sorted_tl sorted_dropWhile)

subsection \<open>The sample rendering and the sample state\<close>

lemma hexDigit_inj: "a < 16 \<Longrightarrow> b < 16 \<Longrightarrow> hexDigit a = hexDigit b \<Longrightarrow> a = b"
  unfolding hexDigit_def by (subst (asm) nth_eq_iff_index_eq) simp_all

lemma hexNibbles_inj:
  "v < 16 ^ w \<Longrightarrow> u < 16 ^ w \<Longrightarrow> hexNibbles w v = hexNibbles w u \<Longrightarrow> v = u"
proof (induction w arbitrary: v u)
  case 0
  then show ?case by simp
next
  case (Suc w)
  have vl: "v mod 16 < 16" and ul: "u mod 16 < 16" by simp_all
  from Suc.prems have dv: "v div 16 < 16 ^ w" and du: "u div 16 < 16 ^ w"
    by (simp_all add: less_mult_imp_div_less mult.commute)
  from Suc.prems(3) have e: "hexNibbles w (v div 16) = hexNibbles w (u div 16)"
    and d: "hexDigit (v mod 16) = hexDigit (u mod 16)" by simp_all
  from Suc.IH [OF dv du e] have q: "v div 16 = u div 16" .
  from hexDigit_inj [OF vl ul d] have r: "v mod 16 = u mod 16" .
  have "v = v div 16 * 16 + v mod 16" by simp
  also have "\<dots> = u div 16 * 16 + u mod 16" by (simp only: q r)
  also have "\<dots> = u" by simp
  finally show ?case .
qed

lemma lowerHex_inj: "inj lowerHex"
proof (rule injI)
  fix a b :: address
  assume "lowerHex a = lowerHex b"
  then have e: "hexNibbles 40 (unat a) = hexNibbles 40 (unat b)" by (simp add: lowerHex_def)
  have "unat a < 2 ^ 160" "unat b < 2 ^ 160"
    using unsigned_less [of a, where ?'a = nat] unsigned_less [of b, where ?'a = nat] by simp_all
  moreover have "(2::nat) ^ 160 = 16 ^ 40" by simp
  ultimately have "unat a < 16 ^ 40" "unat b < 16 ^ 40" by (simp_all only:)
  from hexNibbles_inj [OF this e] show "a = b" by (simp add: word_unat_eq_iff)
qed

lemma pendingOf_example: "pendingOf lowerHex exampleKeeper 1 = [10, 11, 13]"
  by (simp add: pendingOf_def exampleKeeper_def)

lemma gapScan_example:
  "gapScan [10, 11, 13] (nonceCacheKey lowerHex 1) (completedNonces exampleKeeper) 10
     = Some (14, completedNonces exampleKeeper)"
  by (simp add: gapScan.simps exampleKeeper_def NewLRU_def lru_Add_def lru_keys_def
      lru_Contains_def lru_touch_def nonceCacheKey_eq_iff)

section \<open>Properties of the nonce allocator\<close>

subsection \<open>Reserving for the zero address\<close>

text \<open>
  C1. Reserve is meant to be a no-op for the all-zero address, so that suggesting a nonce
  afterwards behaves as if nothing had been reserved. \<open>AddPendingNonce\<close> has no check for
  \<open>zeroAddress\<close> (only \<open>RemovePendingNonce\<close> has one): on the fresh keeper, reserving nonce
  \<open>n\<close> for the zero address creates the entry \<open>[n]\<close> under its key, and with committed nonce
  \<open>n\<close> the next suggestion is \<open>n + 1\<close>, where without the reservation it is \<open>n\<close>.
\<close>

theorem AddPendingNonce_tracks_zeroAddress:
  "pendingNonces (AddPendingNonce hex NewKeeper zeroAddress n) (hex zeroAddress) = Some [n] \<and>
   map_option fst (CalculateNextNonce hex (\<lambda>_. n) (AddPendingNonce hex NewKeeper zeroAddress n) zeroAddress True)
     = Some (n + 1) \<and>
   map_option fst (CalculateNextNonce hex (\<lambda>_. n) NewKeeper zeroAddress True) = Some n"
proof -
  have ne: "n \<noteq> n + 1" by simp
  have nc: "\<not> sortedListContains [n] (n + 1)" using ne by simp
  have "gapScan [n] (nonceCacheKey hex zeroAddress) (NewLRU 100000) n
      = Some (n + 1, NewLRU 100000)"
    using nc by (simp add: gapScan.simps [of _ _ _ n] gapScan.simps [of _ _ _ "n + 1"]
        lru_Contains_def NewLRU_def)
  moreover have "gapScan [] (nonceCacheKey hex zeroAddress) (NewLRU 100000) n = Some (n, NewLRU 100000)"
    by (simp add: gapScan.simps [of _ _ _ n] lru_Contains_def NewLRU_def)
  ultimately show ?thesis
    by (simp add: CalculateNextNonce_True AddPendingNonce_def NewKeeper_def pendingOf_def)
qed

subsection \<open>Empty entries of the pending table\<close>

text \<open>
  C2. No address of the pending table is meant to map to an empty sequence after any
  operation. Reserving nonce 5 for address 1 on the fresh keeper and then retiring it: with
  success the branch deletes the key, as its comment says; without success the branch stores
  the shortened slice and returns, so the key stays with the empty sequence.
\<close>

theorem RemovePendingNonce_failure_keeps_empty_entry:
  "pendingNonces (RemovePendingNonce hex (AddPendingNonce hex NewKeeper 1 5) 1 5 False) (hex 1) = Some [] \<and>
   pendingNonces (RemovePendingNonce hex (AddPendingNonce hex NewKeeper 1 5) 1 5 True) (hex 1) = None"
  by (simp add: RemovePendingNonce_def AddPendingNonce_def NewKeeper_def pendingOf_def zeroAddress_def)

subsection \<open>The gap scan\<close>

text \<open>
  C3. Without \<open>includePending\<close>, \<open>CalculateNextNonce\<close> returns the committed nonce and leaves
  the keeper as it is. With \<open>includePending\<close>, on an ascending pending sequence, a returned
  nonce is the first of \<open>latest, latest + 1, latest + 2, ...\<close> (in \<open>uint64\<close> arithmetic) that
  is neither an element of the pending sequence nor in the completed cache: it is
  \<open>latest + j\<close>, it is not occupied, and each of the \<open>j\<close> candidates before it is. A nonce is
  returned whenever some nonce is not occupied.
\<close>

theorem CalculateNextNonce_gap_scan:
  assumes "sorted (pendingOf hex k addr)"
  shows "CalculateNextNonce hex getNonce k addr False = Some (getNonce addr, k) \<and>
    (\<forall>r k'. CalculateNextNonce hex getNonce k addr True = Some (r, k') \<longrightarrow>
       (\<exists>j. r = getNonce addr + of_nat j \<and> \<not> occupied hex k addr r \<and>
            (\<forall>i<j. occupied hex k addr (getNonce addr + of_nat i)))) \<and>
    ((\<exists>x. \<not> occupied hex k addr x) \<longrightarrow>
       (\<exists>r k'. CalculateNextNonce hex getNonce k addr True = Some (r, k')))"
proof (intro conjI allI impI)
  show "CalculateNextNonce hex getNonce k addr False = Some (getNonce addr, k)"
    by (simp add: CalculateNextNonce_def)
next
  fix r k'
  assume "CalculateNextNonce hex getNonce k addr True = Some (r, k')"
  then obtain c' where
    "gapScan (pendingOf hex k addr) (nonceCacheKey hex addr) (completedNonces k) (getNonce addr) = Some (r, c')"
    by (auto simp: CalculateNextNonce_True split: option.splits)
  from gapScan_sound [OF this]
  have "\<exists>j. r = getNonce addr + of_nat j \<and> \<not> occupied hex k addr r \<and>
            (\<forall>i<j. occupied hex k addr (getNonce addr + of_nat i)) \<and>
            set (lru_keys c') = set (lru_keys (completedNonces k))"
    by (simp add: occupied_taken [OF assms])
  then show "\<exists>j. r = getNonce addr + of_nat j \<and> \<not> occupied hex k addr r \<and>
            (\<forall>i<j. occupied hex k addr (getNonce addr + of_nat i))"
    by blast
next
  assume "\<exists>x. \<not> occupied hex k addr x"
  then obtain x where
    "\<not> taken (pendingOf hex k addr) (nonceCacheKey hex addr) (completedNonces k) x"
    by (auto simp: occupied_taken [OF assms])
  from least_offset [of "taken (pendingOf hex k addr) (nonceCacheKey hex addr) (completedNonces k)", OF this]
  obtain j where
    "\<not> taken (pendingOf hex k addr) (nonceCacheKey hex addr) (completedNonces k) (getNonce addr + of_nat j)"
    "\<forall>i<j. taken (pendingOf hex k addr) (nonceCacheKey hex addr) (completedNonces k) (getNonce addr + of_nat i)"
    by blast
  from gapScan_least [OF this]
  show "\<exists>r k'. CalculateNextNonce hex getNonce k addr True = Some (r, k')"
    by (auto simp: CalculateNextNonce_True)
qed

text \<open>
  The instance of the specification: committed nonce 10, pending 10, 11 and 13, nonce 12
  completed. The scan returns 14.
\<close>

theorem CalculateNextNonce_gap_scan_witness:
  "sorted (pendingOf lowerHex exampleKeeper 1) \<and>
   CalculateNextNonce lowerHex (\<lambda>_. 10) exampleKeeper 1 False = Some (10, exampleKeeper) \<and>
   CalculateNextNonce lowerHex (\<lambda>_. 10) exampleKeeper 1 True = Some (14, exampleKeeper) \<and>
   (\<exists>j. (14::u64) = 10 + of_nat j \<and> \<not> occupied lowerHex exampleKeeper 1 14 \<and>
        (\<forall>i<j. occupied lowerHex exampleKeeper 1 (10 + of_nat i)))"
proof -
  have s: "sorted (pendingOf lowerHex exampleKeeper 1)" by (simp add: pendingOf_example)
  have r: "CalculateNextNonce lowerHex (\<lambda>_. 10) exampleKeeper 1 True = Some (14, exampleKeeper)"
    by (simp add: CalculateNextNonce_True pendingOf_example gapScan_example)
  from CalculateNextNonce_gap_scan [OF s, of "\<lambda>_. 10"] r s show ?thesis by simp
qed

subsection \<open>Reserving, then suggesting\<close>

text \<open>
  C6. In any state, for any address and nonce \<open>C\<close>: after \<open>AddPendingNonce\<close> of \<open>C\<close>, the nonce
  that \<open>CalculateNextNonce\<close> with \<open>includePending\<close> returns is never \<open>C\<close>.
\<close>

theorem reserve_then_suggest:
  "map_option fst (CalculateNextNonce hex getNonce (AddPendingNonce hex k addr C) addr True) \<noteq> Some C"
proof
  let ?k = "AddPendingNonce hex k addr C"
  assume "map_option fst (CalculateNextNonce hex getNonce ?k addr True) = Some C"
  then obtain c' where
    g: "gapScan (pendingOf hex ?k addr) (nonceCacheKey hex addr) (completedNonces ?k) (getNonce addr) = Some (C, c')"
    by (auto simp: CalculateNextNonce_True split: option.splits)
  have p: "pendingOf hex ?k addr = sort (pendingOf hex k addr @ [C])"
    by (simp add: AddPendingNonce_def pendingOf_def)
  have "sortedListContains (pendingOf hex ?k addr) C"
    unfolding p by (subst sortedListContains_sorted) simp_all
  then have "taken (pendingOf hex ?k addr) (nonceCacheKey hex addr) (completedNonces ?k) C"
    by (simp add: taken_def)
  with gapScan_sound [OF g] show False by simp
qed

text \<open>On the fresh keeper with committed nonce 10: after reserving 10 the suggestion is 11.\<close>

theorem reserve_then_suggest_witness:
  "map_option fst (CalculateNextNonce lowerHex (\<lambda>_. 10) (AddPendingNonce lowerHex NewKeeper 1 10) 1 True)
     = Some 11 \<and>
   map_option fst (CalculateNextNonce lowerHex (\<lambda>_. 10) (AddPendingNonce lowerHex NewKeeper 1 10) 1 True)
     \<noteq> Some 10"
proof -
  have "map_option fst (CalculateNextNonce lowerHex (\<lambda>_. 10) (AddPendingNonce lowerHex NewKeeper 1 10) 1 True)
     = Some 11"
    by (simp add: CalculateNextNonce_True AddPendingNonce_def NewKeeper_def NewLRU_def pendingOf_def
        gapScan.simps lru_Contains_def)
  then show ?thesis
    using reserve_then_suggest [of lowerHex "\<lambda>_. 10" NewKeeper 1 10] by (rule conjI)
qed

subsection \<open>Termination of the gap scan\<close>

text \<open>
  C7. The loop of \<open>CalculateNextNonce\<close> returns for every address and every committed nonce,
  whenever the pending sequence of the address and the completed cache together hold fewer
  than \<open>2 ^ 64\<close> entries. A Go slice has fewer than \<open>2 ^ 63\<close> elements and the cache is
  bounded, so every state the keeper can be in satisfies this.
\<close>

theorem gap_scan_terminates:
  assumes "length (pendingOf hex k addr) + length (recency (completedNonces k)) < 2 ^ 64"
  shows "\<exists>r k'. CalculateNextNonce hex getNonce k addr True = Some (r, k')"
proof -
  from free_exists [OF assms] obtain x where
    "\<not> taken (pendingOf hex k addr) (nonceCacheKey hex addr) (completedNonces k) x" by blast
  from least_offset [of "taken (pendingOf hex k addr) (nonceCacheKey hex addr) (completedNonces k)", OF this]
  obtain j where
    "\<not> taken (pendingOf hex k addr) (nonceCacheKey hex addr) (completedNonces k) (getNonce addr + of_nat j)"
    "\<forall>i<j. taken (pendingOf hex k addr) (nonceCacheKey hex addr) (completedNonces k) (getNonce addr + of_nat i)"
    by blast
  from gapScan_least [OF this] show ?thesis
    by (auto simp: CalculateNextNonce_True)
qed

theorem gap_scan_terminates_witness:
  "length (pendingOf lowerHex exampleKeeper 1) + length (recency (completedNonces exampleKeeper)) < 2 ^ 64 \<and>
   (\<exists>r k'. CalculateNextNonce lowerHex (\<lambda>_. 10) exampleKeeper 1 True = Some (r, k'))"
proof -
  have "recency (completedNonces exampleKeeper) = [(nonceCacheKey lowerHex 1 12, True)]"
    by (simp add: exampleKeeper_def NewLRU_def lru_Add_def lru_keys_def)
  then have b: "length (pendingOf lowerHex exampleKeeper 1) + length (recency (completedNonces exampleKeeper)) < 2 ^ 64"
    by (simp add: pendingOf_example)
  from gap_scan_terminates [OF b] b show ?thesis by blast
qed

subsection \<open>Retiring a nonce\<close>

text \<open>
  C4. For an address other than the zero address that has a pending sequence,
  \<open>RemovePendingNonce\<close> with success adds the key of (address, nonce) to the completed
  cache, which then reports it present, and prunes the sequence of the address: if the
  sequence splits into elements below the nonce, a first element at or above it and the
  rest, exactly the rest stays (the key is deleted when the rest is empty); if every
  element is below the nonce, the sequence stays as it is. The sequences of other keys are
  not touched.
\<close>

theorem RemovePendingNonce_success:
  assumes "addr \<noteq> zeroAddress" and "pendingNonces k (hex addr) = Some whole"
  shows "completedNonces (RemovePendingNonce hex k addr nonce True)
       = lru_Add (completedNonces k) (nonceCacheKey hex addr nonce) True \<and>
    fst (lru_Contains (completedNonces (RemovePendingNonce hex k addr nonce True))
           (nonceCacheKey hex addr nonce)) \<and>
    (\<forall>a. a \<noteq> hex addr \<longrightarrow>
       pendingNonces (RemovePendingNonce hex k addr nonce True) a = pendingNonces k a) \<and>
    ((\<forall>x\<in>set whole. x < nonce) \<longrightarrow>
       pendingNonces (RemovePendingNonce hex k addr nonce True) (hex addr) = Some whole) \<and>
    (\<forall>pre x post. whole = pre @ x # post \<and> (\<forall>p\<in>set pre. p < nonce) \<and> nonce \<le> x \<longrightarrow>
       pendingNonces (RemovePendingNonce hex k addr nonce True) (hex addr)
         = (if post = [] then None else Some post))"
proof (intro conjI allI impI)
  let ?k' = "RemovePendingNonce hex k addr nonce True"
  note eq = RemovePendingNonce_success_eq [where hex = hex and addr = addr and nonce = nonce, OF assms]
  show c: "completedNonces ?k' = lru_Add (completedNonces k) (nonceCacheKey hex addr nonce) True"
    by (simp add: completedNonces_Remove assms(1))
  show "fst (lru_Contains (completedNonces ?k') (nonceCacheKey hex addr nonce))"
    unfolding c by (rule lru_Add_present)
  show "pendingNonces ?k' a = pendingNonces k a" if "a \<noteq> hex addr" for a
    using that unfolding eq by (simp add: Let_def)
  show "pendingNonces ?k' (hex addr) = Some whole" if "\<forall>x\<in>set whole. x < nonce"
  proof -
    from that have "\<not> (\<exists>x\<in>set whole. nonce \<le> x)" by (auto simp: not_le)
    then show ?thesis unfolding eq using assms(2) by simp
  qed
  show "pendingNonces ?k' (hex addr) = (if post = [] then None else Some post)"
    if "whole = pre @ x # post \<and> (\<forall>p\<in>set pre. p < nonce) \<and> nonce \<le> x" for pre x post
  proof -
    from that have d: "tl (dropWhile (\<lambda>x. x < nonce) whole) = post"
      by (intro dropWhile_decomp [of whole pre x post nonce]) simp_all
    from that have "\<exists>x\<in>set whole. nonce \<le> x" by auto
    then show ?thesis unfolding eq by (simp add: Let_def d)
  qed
qed

text \<open>Pending 5, 6 and 8: retiring 6 with success leaves 8, and (address, 6) is in the cache.\<close>

theorem RemovePendingNonce_success_witness:
  "(1::address) \<noteq> zeroAddress \<and>
   pendingNonces \<lparr>pendingNonces = [lowerHex 1 \<mapsto> [5, 6, 8]], completedNonces = NewLRU 100000\<rparr> (lowerHex 1)
     = Some [5, 6, 8] \<and>
   pendingNonces (RemovePendingNonce lowerHex
       \<lparr>pendingNonces = [lowerHex 1 \<mapsto> [5, 6, 8]], completedNonces = NewLRU 100000\<rparr> 1 6 True) (lowerHex 1)
     = Some [8] \<and>
   fst (lru_Contains (completedNonces (RemovePendingNonce lowerHex
       \<lparr>pendingNonces = [lowerHex 1 \<mapsto> [5, 6, 8]], completedNonces = NewLRU 100000\<rparr> 1 6 True))
       (nonceCacheKey lowerHex 1 6))"
proof -
  let ?k = "\<lparr>pendingNonces = [lowerHex 1 \<mapsto> [5, 6, 8]], completedNonces = NewLRU 100000\<rparr>"
  have a: "(1::address) \<noteq> zeroAddress" by (simp add: zeroAddress_def)
  have p: "pendingNonces ?k (lowerHex 1) = Some [5, 6, 8]" by simp
  have d: "[5, 6, 8] = [5] @ 6 # [8] \<and> (\<forall>p\<in>set [5]. p < (6::u64)) \<and> (6::u64) \<le> 6" by simp
  from RemovePendingNonce_success [where hex = lowerHex and k = ?k and addr = 1 and nonce = 6
      and whole = "[5, 6, 8]", OF a p] d
  have "pendingNonces (RemovePendingNonce lowerHex ?k 1 6 True) (lowerHex 1) = (if [8::u64] = [] then None else Some [8])"
    and "fst (lru_Contains (completedNonces (RemovePendingNonce lowerHex ?k 1 6 True)) (nonceCacheKey lowerHex 1 6))"
    by blast+
  with a p show ?thesis by simp
qed

text \<open>
  C5. For an address other than the zero address, \<open>RemovePendingNonce\<close> without success
  removes the first occurrence of the nonce from the pending sequence of the address and
  keeps the order of the other elements (\<open>remove1\<close>); the rest of the keeper is unchanged. If
  the nonce is not in the sequence, the keeper is unchanged. The completed cache is never
  written.
\<close>

theorem RemovePendingNonce_failure:
  assumes "addr \<noteq> zeroAddress"
  shows "(\<forall>whole. pendingNonces k (hex addr) = Some whole \<longrightarrow>
       RemovePendingNonce hex k addr nonce False
         = k\<lparr>pendingNonces := (pendingNonces k)(hex addr \<mapsto> remove1 nonce whole)\<rparr>) \<and>
    (nonce \<notin> set (pendingOf hex k addr) \<longrightarrow> RemovePendingNonce hex k addr nonce False = k) \<and>
    completedNonces (RemovePendingNonce hex k addr nonce False) = completedNonces k"
proof (intro conjI allI impI)
  show "RemovePendingNonce hex k addr nonce False
         = k\<lparr>pendingNonces := (pendingNonces k)(hex addr \<mapsto> remove1 nonce whole)\<rparr>"
    if "pendingNonces k (hex addr) = Some whole" for whole
    using RemovePendingNonce_failure_eq [where hex = hex and addr = addr, OF assms that] .
  show "RemovePendingNonce hex k addr nonce False = k" if n: "nonce \<notin> set (pendingOf hex k addr)"
  proof (cases "pendingNonces k (hex addr)")
    case None
    then show ?thesis by (simp add: RemovePendingNonce_def Let_def)
  next
    case (Some whole)
    with n have "remove1 nonce whole = whole" by (simp add: pendingOf_def remove1_idem)
    with RemovePendingNonce_failure_eq [where hex = hex and addr = addr and nonce = nonce, OF assms Some]
      Some show ?thesis
      by (simp add: fun_upd_idem)
  qed
  show "completedNonces (RemovePendingNonce hex k addr nonce False) = completedNonces k"
    by (simp add: completedNonces_Remove)
qed

text \<open>Pending 5, 6 and 7: releasing 6 leaves 5 and 7; releasing 9 changes nothing.\<close>

theorem RemovePendingNonce_failure_witness:
  "(1::address) \<noteq> zeroAddress \<and>
   RemovePendingNonce lowerHex
       \<lparr>pendingNonces = [lowerHex 1 \<mapsto> [5, 6, 7]], completedNonces = NewLRU 100000\<rparr> 1 6 False
     = \<lparr>pendingNonces = [lowerHex 1 \<mapsto> [5, 7]], completedNonces = NewLRU 100000\<rparr> \<and>
   RemovePendingNonce lowerHex
       \<lparr>pendingNonces = [lowerHex 1 \<mapsto> [5, 6, 7]], completedNonces = NewLRU 100000\<rparr> 1 9 False
     = \<lparr>pendingNonces = [lowerHex 1 \<mapsto> [5, 6, 7]], completedNonces = NewLRU 100000\<rparr>"
proof -
  let ?k = "\<lparr>pendingNonces = [lowerHex 1 \<mapsto> [5, 6, 7]], completedNonces = NewLRU 100000\<rparr>"
  have a: "(1::address) \<noteq> zeroAddress" by (simp add: zeroAddress_def)
  from RemovePendingNonce_failure [where hex = lowerHex and k = ?k and addr = 1 and nonce = 6, OF a]
  have "RemovePendingNonce lowerHex ?k 1 6 False
      = ?k\<lparr>pendingNonces := (pendingNonces ?k)(lowerHex 1 \<mapsto> remove1 6 [5, 6, 7])\<rparr>" by simp
  moreover from RemovePendingNonce_failure [where hex = lowerHex and k = ?k and addr = 1 and nonce = 9, OF a]
  have "RemovePendingNonce lowerHex ?k 1 9 False = ?k" by (simp add: pendingOf_def)
  ultimately show ?thesis using a by simp
qed

subsection \<open>Ascending pending sequences\<close>

text \<open>
  C8. If every pending sequence of the table is ascending, it is so again after
  \<open>AddPendingNonce\<close> (which appends and sorts), after \<open>RemovePendingNonce\<close> with or without
  success, and after \<open>CalculateNextNonce\<close>.
\<close>

theorem pendingSorted_preserved:
  assumes "pendingSorted k"
  shows "pendingSorted (AddPendingNonce hex k addr nonce) \<and>
    pendingSorted (RemovePendingNonce hex k addr nonce success) \<and>
    (\<forall>r k'. CalculateNextNonce hex getNonce k addr includePending = Some (r, k') \<longrightarrow> pendingSorted k')"
proof (intro conjI allI impI)
  show "pendingSorted (AddPendingNonce hex k addr nonce)"
    using assms by (simp add: pendingSorted_def AddPendingNonce_def)
next
  show "pendingSorted (RemovePendingNonce hex k addr nonce success)"
  proof (cases "addr = zeroAddress")
    case True
    with assms show ?thesis by (simp add: RemovePendingNonce_def)
  next
    case nz: False
    show ?thesis
    proof (cases "pendingNonces k (hex addr)")
      case None
      from RemovePendingNonce_no_entry [where hex = hex and addr = addr, OF None] assms
      show ?thesis by (simp add: pendingSorted_def)
    next
      case (Some whole)
      with assms have sw: "sorted whole" by (simp add: pendingSorted_def)
      show ?thesis
      proof (cases success)
        case True
        then have s: "success = True" by simp
        have "sorted (tl (dropWhile (\<lambda>x. x < nonce) whole))" using sw by (rule sorted_prune)
        with assms show ?thesis
          unfolding s RemovePendingNonce_success_eq [where hex = hex and addr = addr, OF nz Some]
          by (simp add: pendingSorted_def Let_def)
      next
        case False
        then have s: "success = False" by simp
        have "sorted (remove1 nonce whole)" using sw by (rule sorted_remove1)
        with assms show ?thesis
          unfolding s RemovePendingNonce_failure_eq [where hex = hex and addr = addr, OF nz Some]
          by (simp add: pendingSorted_def)
      qed
    qed
  qed
next
  fix r k'
  assume "CalculateNextNonce hex getNonce k addr includePending = Some (r, k')"
  then have "pendingNonces k' = pendingNonces k"
    by (auto simp: CalculateNextNonce_def Let_def split: if_splits option.splits)
  with assms show "pendingSorted k'" by (simp add: pendingSorted_def)
qed

theorem pendingSorted_preserved_witness:
  "pendingSorted exampleKeeper \<and>
   pendingSorted (AddPendingNonce lowerHex exampleKeeper 1 12) \<and>
   pendingNonces (AddPendingNonce lowerHex exampleKeeper 1 12) (lowerHex 1) = Some [10, 11, 12, 13] \<and>
   pendingSorted (RemovePendingNonce lowerHex exampleKeeper 1 11 True) \<and>
   pendingSorted (RemovePendingNonce lowerHex exampleKeeper 1 11 False)"
proof -
  have s: "pendingSorted exampleKeeper" by (simp add: pendingSorted_def exampleKeeper_def)
  have "pendingNonces (AddPendingNonce lowerHex exampleKeeper 1 12) (lowerHex 1) = Some [10, 11, 12, 13]"
    by (simp add: AddPendingNonce_def pendingOf_example) 
  with s pendingSorted_preserved [OF s, of lowerHex 1 12]
    pendingSorted_preserved [OF s, of lowerHex 1 11 True]
    pendingSorted_preserved [OF s, of lowerHex 1 11 False]
  show ?thesis by blast
qed

subsection \<open>Keys of the completed cache\<close>

text \<open>
  C10. If \<open>addr.Hex()\<close> renders different addresses differently, \<open>nonceCacheKey\<close> gives
  different keys to different pairs of address and nonce. Hence a pair that the cache
  reports after \<open>RemovePendingNonce\<close> of another pair was in the cache before.
\<close>

theorem nonceCacheKey_injective:
  assumes "inj hex"
  shows "((nonceCacheKey hex a1 n1 = nonceCacheKey hex a2 n2) = (a1 = a2 \<and> n1 = n2)) \<and>
    ((a2, n2) \<noteq> (a1, n1) \<longrightarrow>
       fst (lru_Contains (completedNonces (RemovePendingNonce hex k a1 n1 success)) (nonceCacheKey hex a2 n2)) \<longrightarrow>
       fst (lru_Contains (completedNonces k) (nonceCacheKey hex a2 n2)))"
proof (intro conjI impI)
  show eq: "(nonceCacheKey hex a1 n1 = nonceCacheKey hex a2 n2) = (a1 = a2 \<and> n1 = n2)"
    using assms by (simp add: nonceCacheKey_eq_iff inj_eq)
  assume ne: "(a2, n2) \<noteq> (a1, n1)"
    and "fst (lru_Contains (completedNonces (RemovePendingNonce hex k a1 n1 success)) (nonceCacheKey hex a2 n2))"
  then have "nonceCacheKey hex a2 n2 \<in> set (lru_keys (completedNonces (RemovePendingNonce hex k a1 n1 success)))"
    by (simp add: lru_Contains_fst)
  then have "nonceCacheKey hex a2 n2 \<in> insert (nonceCacheKey hex a1 n1) (set (lru_keys (completedNonces k)))"
    using lru_Add_keys_subset [of "completedNonces k" "nonceCacheKey hex a1 n1" True]
    by (auto simp: completedNonces_Remove split: if_splits)
  moreover from ne eq have "nonceCacheKey hex a2 n2 \<noteq> nonceCacheKey hex a1 n1" by auto
  ultimately show "fst (lru_Contains (completedNonces k) (nonceCacheKey hex a2 n2))"
    by (simp add: lru_Contains_fst)
qed

theorem nonceCacheKey_injective_witness:
  "inj lowerHex \<and>
   nonceCacheKey lowerHex 1 5 \<noteq> nonceCacheKey lowerHex 2 5 \<and>
   nonceCacheKey lowerHex 1 5 \<noteq> nonceCacheKey lowerHex 1 6 \<and>
   fst (lru_Contains (completedNonces (RemovePendingNonce lowerHex NewKeeper 1 5 True)) (nonceCacheKey lowerHex 1 5)) \<and>
   \<not> fst (lru_Contains (completedNonces (RemovePendingNonce lowerHex NewKeeper 1 5 True)) (nonceCacheKey lowerHex 2 5))"
proof -
  have e: "\<not> fst (lru_Contains (completedNonces NewKeeper) (nonceCacheKey lowerHex 2 5))"
    by (simp add: NewKeeper_def NewLRU_def lru_Contains_def)
  have p: "fst (lru_Contains (completedNonces (RemovePendingNonce lowerHex NewKeeper 1 5 True)) (nonceCacheKey lowerHex 1 5))"
    by (simp add: completedNonces_Remove zeroAddress_def lru_Add_present)
  from nonceCacheKey_injective [OF lowerHex_inj, of 1 5 2 5 NewKeeper True]
    nonceCacheKey_injective [OF lowerHex_inj, of 1 5 1 6 NewKeeper True] e p lowerHex_inj
  show ?thesis by auto
qed

end
